theory Spec2Isabelle
  imports Main "HOL-Library.AList" "HOL-Library.Multiset"
begin

section \<open>Data model of the consumer (faust/transport/base.py)\<close>

text \<open>
  A topic-partition is the pair of a topic name and a partition number; Python's
  integers are unbounded, so offsets and partitions are \<open>int\<close>.
\<close>

datatype TopicPartition = TopicPartition (topic: string) (partition: int)

record Message =
  message_topic :: string
  message_partition :: int
  message_key :: "string option"
  message_value :: "string option"

text \<open>
  \<open>MessageRef\<close> remembers the topic-partition, the offset and the consumer id of the
  message it observes.
\<close>

record MessageRef =
  ref_message :: Message
  ref_tp :: TopicPartition
  ref_offset :: int
  ref_consumer_id :: nat

text \<open>
  The consumer talks to three collaborators that the base class leaves open: the sensor
  hook \<open>app.on_message_in\<close>, the user callback and the driver's commit. The model
  records each call made to them, in order.
\<close>

datatype 'm call =
    SensorMessageIn nat TopicPartition int Message
  | Callback Message
  | DriverCommit TopicPartition int 'm

text \<open>
  The keys of the \<open>_autoack\<close> dictionary. It is declared as a mapping from topic
  names, and \<open>on_message_ready\<close> indexes it with a topic-partition; in Python a string
  and a topic-partition are never equal, so the two kinds of key are kept apart.
\<close>

datatype autoack_key = ByTopic string | ByTP TopicPartition

text \<open>
  The fields of \<open>Consumer\<close> that the operations below read and write. \<open>acked\<close> is the
  \<open>defaultdict(list)\<close> of ack lists: an association list in insertion order, as a Python
  dictionary iterates. \<open>autoack_flags\<close> is the \<open>defaultdict(lambda: autoack)\<close>.
  \<open>calls\<close> is the record of calls to the collaborators.
\<close>

record 'm Consumer =
  consumer_id :: nat
  autoack :: bool
  autoack_flags :: "autoack_key \<rightharpoonup> bool"
  dirty_messages :: "MessageRef list"
  acked :: "(TopicPartition \<times> int list) list"
  current_offset :: "TopicPartition \<rightharpoonup> int"
  recently_acked :: "(TopicPartition \<times> int) list"
  calls :: "'m call list"

text \<open>
  Exceptions: a failure of the driver; the two Python exceptions that
  \<open>_new_offset\<close> could raise (\<open>next\<close> on an exhausted generator, \<open>batch[-1]\<close> on an
  empty batch); reading an attribute that is not set, and a malformed format string.
\<close>

datatype error = DriverError string | StopIteration | IndexError | AttributeError | ValueError

text \<open>
  The methods a concrete transport supplies (\<open>_get_topic_meta\<close>,
  \<open>_new_topicpartition\<close>, \<open>_commit\<close>); the commit answers \<open>None\<close> when it succeeds and
  the exception it raises otherwise.
\<close>

record 'm Driver =
  get_topic_meta :: "string \<Rightarrow> 'm"
  new_topicpartition :: "string \<Rightarrow> int \<Rightarrow> TopicPartition"
  commit :: "TopicPartition \<Rightarrow> int \<Rightarrow> 'm \<Rightarrow> error option"

section \<open>Acknowledging offsets\<close>

text \<open>
  Reading \<open>self._acked[tp]\<close>: a missing key of the \<open>defaultdict\<close> is first inserted
  with an empty list.
\<close>

definition acked_for :: "TopicPartition \<Rightarrow> 'm Consumer \<Rightarrow> int list" where
  "acked_for tp s = (case map_of (acked s) tp of None \<Rightarrow> [] | Some xs \<Rightarrow> xs)"

text \<open>
  \<open>ack\<close> appends the offset to the list of the topic-partition and sorts the list. Its
  last line calls \<open>put\<close> of the \<open>asyncio\<close> queue, a coroutine function, without
  awaiting it: the coroutine object is dropped, nothing is put on the queue, and
  \<open>recently_acked\<close> stays as it is.
\<close>

definition ack :: "TopicPartition \<Rightarrow> int \<Rightarrow> 'm Consumer \<Rightarrow> 'm Consumer" where
  "ack tp offset s =
     s\<lparr>acked := AList.update tp (sort (acked_for tp s @ [offset])) (acked s)\<rparr>"

section \<open>The new commit offset\<close>

text \<open>
  Modelled from the spec: \<open>consecutive_numbers\<close> of \<open>faust/utils/functional.py\<close> is not
  among the sources. The spec (4.2) and the comment in \<open>_new_offset\<close> say that it yields
  the runs of consecutive numbers of the list, the first run being the longest prefix in
  which every element is its predecessor plus one.
\<close>

fun consecutive_numbers :: "int list \<Rightarrow> int list list" where
  "consecutive_numbers [] = []"
| "consecutive_numbers [a] = [[a]]"
| "consecutive_numbers (a # b # xs) =
     (if b = a + 1
      then (case consecutive_numbers (b # xs) of
              [] \<Rightarrow> [[a]]
            | r # rs \<Rightarrow> (a # r) # rs)
      else [a] # consecutive_numbers (b # xs))"

text \<open>
  \<open>_new_offset\<close>: for a non-empty ack list, take the first run, delete
  \<open>acked[:len(batch)]\<close> and return \<open>batch[-1]\<close>; otherwise return \<open>None\<close>. The first
  line reads \<open>self._acked[tp]\<close>, which inserts a missing key. \<open>next\<close> on an exhausted
  generator and \<open>batch[-1]\<close> on an empty batch would raise; both are branches of the
  model.
\<close>

definition new_offset ::
  "TopicPartition \<Rightarrow> 'm Consumer \<Rightarrow> 'm Consumer \<times> (error + int option)" where
  "new_offset tp s =
     (let acked_tp = acked_for tp s;
          s1 = s\<lparr>acked := AList.update tp acked_tp (acked s)\<rparr>
      in if acked_tp \<noteq> []
         then (case consecutive_numbers acked_tp of
                 [] \<Rightarrow> (s1, Inl StopIteration)
               | batch # _ \<Rightarrow>
                   let s2 = s1\<lparr>acked := AList.update tp (drop (length batch) acked_tp) (acked s1)\<rparr>
                   in if batch = [] then (s2, Inl IndexError)
                      else (s2, Inr (Some (last batch))))
         else (s1, Inr None))"

section \<open>Committing\<close>

text \<open>
  \<open>_should_commit\<close>: \<open>tp not in self._current_offset or (bool(offset) and offset >
  self._current_offset[tp])\<close>. Python's \<open>or\<close> reads the current offset only when the
  key is there.
\<close>

definition should_commit :: "TopicPartition \<Rightarrow> int \<Rightarrow> 'm Consumer \<Rightarrow> bool" where
  "should_commit tp offset s =
     (case current_offset s tp of
        None \<Rightarrow> True
      | Some c \<Rightarrow> offset \<noteq> 0 \<and> offset > c)"

text \<open>
  \<open>_do_commit\<close> hands the offset and the metadata to the driver's commit. The state is
  returned in both cases: an exception leaves every earlier assignment in place.
\<close>

definition do_commit ::
  "'m Driver \<Rightarrow> TopicPartition \<Rightarrow> int \<Rightarrow> 'm \<Rightarrow> 'm Consumer \<Rightarrow> 'm Consumer \<times> error option" where
  "do_commit drv tp offset meta s =
     (s\<lparr>calls := calls s @ [DriverCommit tp offset meta]\<rparr>, commit drv tp offset meta)"

text \<open>
  The loop of \<open>maybe_commit\<close> over the keys of \<open>_acked\<close>, with the local \<open>did_commit\<close>.
  The current offset is assigned before the driver is called. The result is the state
  together with either the exception that left the loop or the value returned.
\<close>

fun commit_each ::
  "'m Driver \<Rightarrow> TopicPartition list \<Rightarrow> bool \<Rightarrow> 'm Consumer \<Rightarrow> 'm Consumer \<times> (error + bool)" where
  "commit_each drv [] did_commit s = (s, Inr did_commit)"
| "commit_each drv (tp # tps) did_commit s =
     (case new_offset tp s of
        (s1, Inl e) \<Rightarrow> (s1, Inl e)
      | (s1, Inr None) \<Rightarrow> commit_each drv tps did_commit s1
      | (s1, Inr (Some offset)) \<Rightarrow>
          if should_commit tp offset s1
          then (let s2 = s1\<lparr>current_offset := (current_offset s1)(tp \<mapsto> offset)\<rparr>;
                    meta = get_topic_meta drv (topic tp)
                in case do_commit drv tp offset meta s2 of
                     (s3, Some e) \<Rightarrow> (s3, Inl e)
                   | (s3, None) \<Rightarrow> commit_each drv tps True s3)
          else commit_each drv tps did_commit s1)"

text \<open>
  \<open>maybe_commit\<close>. One coroutine runs at a time in this model, so taking and releasing
  \<open>_commit_mutex\<close> has no effect.
\<close>

definition maybe_commit :: "'m Driver \<Rightarrow> 'm Consumer \<Rightarrow> 'm Consumer \<times> (error + bool)" where
  "maybe_commit drv s = commit_each drv (map fst (acked s)) False s"

text \<open>
  \<open>_commit_handler\<close>: sleep, then forever commit and sleep. The loop never returns by
  itself, so the model runs it for a given list of ticks. A tick is the list of acks
  that arrive during the sleep before it and the driver as it behaves during it. The
  result says whether the loop is still running after these ticks (\<open>None\<close>) or has been
  left by an exception, and how many times \<open>maybe_commit\<close> was called.
\<close>

fun commit_handler ::
  "((TopicPartition \<times> int) list \<times> 'm Driver) list \<Rightarrow> 'm Consumer \<Rightarrow>
   'm Consumer \<times> error option \<times> nat" where
  "commit_handler [] s = (s, None, 0)"
| "commit_handler ((arrived, drv) # ticks) s =
     (case maybe_commit drv (fold (\<lambda>(tp, offset). ack tp offset) arrived s) of
        (s1, Inl e) \<Rightarrow> (s1, Some e, 1)
      | (s1, Inr _) \<Rightarrow>
          (case commit_handler ticks s1 of (s2, r, n) \<Rightarrow> (s2, r, Suc n)))"

section \<open>Tracking messages\<close>

text \<open>
  Modelled from the spec: \<open>App.on_message_in\<close>, which the consumer stores as
  \<open>_on_message_in\<close>, is not among the sources. The spec (4.3) calls it the emission of
  the \<open>message_in\<close> sensor event with consumer id, topic-partition, offset and message.
\<close>

definition on_message_in ::
  "nat \<Rightarrow> TopicPartition \<Rightarrow> int \<Rightarrow> Message \<Rightarrow> 'm Consumer \<Rightarrow> 'm Consumer" where
  "on_message_in cid tp offset message s =
     s\<lparr>calls := calls s @ [SensorMessageIn cid tp offset message]\<rparr>"

text \<open>
  \<open>track_message\<close>: build the topic-partition with the driver's factory, append a
  \<open>MessageRef\<close> to \<open>_dirty_messages\<close>, then await \<open>_on_message_in\<close>.
\<close>

definition track_message :: "'m Driver \<Rightarrow> Message \<Rightarrow> int \<Rightarrow> 'm Consumer \<Rightarrow> 'm Consumer" where
  "track_message drv message offset s =
     (let cid = consumer_id s;
          tp = new_topicpartition drv (message_topic message) (message_partition message);
          s1 = s\<lparr>dirty_messages := dirty_messages s @
                 [\<lparr>ref_message = message,
                   ref_tp = TopicPartition (message_topic message) (message_partition message),
                   ref_offset = offset,
                   ref_consumer_id = consumer_id s\<rparr>]\<rparr>
      in on_message_in cid tp offset message s1)"

text \<open>
  \<open>on_message_ready\<close>: \<open>if self._autoack[tp]: self.ack(tp, ref.offset)\<close>. The
  dictionary is indexed with the topic-partition; a key that is missing is inserted with
  the default flag, which is then the value read.
\<close>

definition on_message_ready :: "MessageRef \<Rightarrow> 'm Consumer \<Rightarrow> 'm Consumer" where
  "on_message_ready ref s =
     (let tp = ref_tp ref;
          flag = (case autoack_flags s (ByTP tp) of None \<Rightarrow> autoack s | Some b \<Rightarrow> b);
          s1 = s\<lparr>autoack_flags := (autoack_flags s)(ByTP tp \<mapsto> flag)\<rparr>
      in if flag then ack tp (ref_offset ref) s1 else s1)"

text \<open>
  A session without rebalance: acks and commit attempts in any order. A commit attempt
  that raises leaves the consumer in the state reached, and the session goes on.
\<close>

datatype 'm op = Ack TopicPartition int | MaybeCommit "'m Driver"

fun step :: "'m op \<Rightarrow> 'm Consumer \<Rightarrow> 'm Consumer" where
  "step (Ack tp offset) s = ack tp offset s"
| "step (MaybeCommit drv) s = fst (maybe_commit drv s)"

definition run :: "'m op list \<Rightarrow> 'm Consumer \<Rightarrow> 'm Consumer" where
  "run ops s = fold step ops s"

text \<open>
  The consumer as \<open>__init__\<close> leaves it.
\<close>

definition init :: "nat \<Rightarrow> bool \<Rightarrow> 'm Consumer" where
  "init cid flag =
     \<lparr>consumer_id = cid, autoack = flag, autoack_flags = Map.empty, dirty_messages = [],
      acked = [], current_offset = Map.empty, recently_acked = [], calls = []\<rparr>"

text \<open>
  A driver whose commit always succeeds and one whose commit always raises, both with
  no metadata, for the examples.
\<close>

definition accepting :: "unit Driver" where
  "accepting =
     \<lparr>get_topic_meta = (\<lambda>_. ()), new_topicpartition = TopicPartition,
      commit = (\<lambda>_ _ _. None)\<rparr>"

definition failing :: "unit Driver" where
  "failing =
     \<lparr>get_topic_meta = (\<lambda>_. ()), new_topicpartition = TopicPartition,
      commit = (\<lambda>_ _ _. Some (DriverError ''commit failed''))\<rparr>"

text \<open>
  Whether a recorded call is a driver commit for a given topic-partition; whether it is
  a driver commit that the driver answers with an exception; and a comparison of two
  consumers: every current offset of the first is there in the second and is not
  smaller.
\<close>

fun is_commit_for :: "TopicPartition \<Rightarrow> 'm call \<Rightarrow> bool" where
  "is_commit_for tp (DriverCommit tp' _ _) = (tp' = tp)"
| "is_commit_for tp _ = False"

fun call_fails :: "'m Driver \<Rightarrow> 'm call \<Rightarrow> bool" where
  "call_fails drv (DriverCommit tp offset meta) = (commit drv tp offset meta \<noteq> None)"
| "call_fails drv _ = False"

definition offsets_le :: "'m Consumer \<Rightarrow> 'm Consumer \<Rightarrow> bool" where
  "offsets_le s s' \<longleftrightarrow>
     (\<forall>tp c. current_offset s tp = Some c \<longrightarrow>
        (\<exists>c'. current_offset s' tp = Some c' \<and> c \<le> c'))"

text \<open>
  The words of the spec for the committable prefix: every element is its predecessor
  plus one.
\<close>

fun consecutive :: "int list \<Rightarrow> bool" where
  "consecutive [] = True"
| "consecutive [a] = True"
| "consecutive (a # b # xs) = (b = a + 1 \<and> consecutive (b # xs))"

section \<open>Tables (faust/tables.py)\<close>

datatype Topic = Topic (topic_name: string)

text \<open>
  Of the application a table uses its id, its default store URL, the queue behind
  \<open>send_soon\<close> and the registry of tables. A changelog record is a topic, a key and a
  value, the value \<open>None\<close> being a tombstone.
\<close>

record ('k, 'v) App =
  app_id :: string
  app_store :: string
  pending :: "(Topic \<times> 'k \<times> 'v option) list"
  tables :: "string list"

text \<open>
  The fields of \<open>Table\<close>: \<open>table_name\<close>, \<open>_store\<close>, whether the class supplies a
  \<open>StateStore\<close>, the underlying map \<open>data\<close>, and \<open>changelog_topic\<close>, which is not set
  before \<open>on_bind\<close>.
\<close>

record ('k, 'v) Table =
  table_name :: string
  store :: "string option"
  state_store :: bool
  data :: "'k \<rightharpoonup> 'v"
  changelog_topic :: "Topic option"

text \<open>
  Modelled from the spec: \<open>App.send_soon\<close> is not among the sources. The spec (4.8)
  says that the send is scheduled, and that the call returns once the record is accepted
  into the producer queue.
\<close>

definition send_soon ::
  "Topic \<Rightarrow> 'k \<Rightarrow> 'v option \<Rightarrow> ('k, 'v) App \<Rightarrow> ('k, 'v) App" where
  "send_soon t key val app = app\<lparr>pending := pending app @ [(t, key, val)]\<rparr>"

text \<open>
  \<open>on_key_set\<close> and \<open>on_key_del\<close> send to \<open>self.changelog_topic\<close>; reading it on a
  table that is not bound raises. The values of a table are the values of type \<open>'v\<close>;
  Python's \<open>None\<close> stored as a value, which \<open>on_key_set\<close> would send like a tombstone,
  is outside this type.
\<close>

definition on_key_set ::
  "('k, 'v) Table \<Rightarrow> 'k \<Rightarrow> 'v \<Rightarrow> ('k, 'v) App \<Rightarrow> ('k, 'v) App \<times> error option" where
  "on_key_set t key val app =
     (case changelog_topic t of
        None \<Rightarrow> (app, Some AttributeError)
      | Some ct \<Rightarrow> (send_soon ct key (Some val) app, None))"

definition on_key_del ::
  "('k, 'v) Table \<Rightarrow> 'k \<Rightarrow> ('k, 'v) App \<Rightarrow> ('k, 'v) App \<times> error option" where
  "on_key_del t key app =
     (case changelog_topic t of
        None \<Rightarrow> (app, Some AttributeError)
      | Some ct \<Rightarrow> (send_soon ct key None app, None))"

text \<open>
  Modelled from the spec: \<open>ManagedUserDict\<close> of \<open>faust/utils/collections.py\<close>, whose
  \<open>__setitem__\<close> and \<open>__delitem__\<close> call the two hooks, is not among the sources. The
  spec (4.8): \<open>set(k, v)\<close> updates the underlying map, then the send is scheduled;
  \<open>del(k)\<close> removes the entry of the underlying map, then a tombstone send is scheduled.
\<close>

definition setitem ::
  "'k \<Rightarrow> 'v \<Rightarrow> ('k, 'v) Table \<times> ('k, 'v) App \<Rightarrow>
   (('k, 'v) Table \<times> ('k, 'v) App) \<times> error option" where
  "setitem key val ta =
     (case ta of (t, app) \<Rightarrow>
        let t1 = t\<lparr>data := (data t)(key \<mapsto> val)\<rparr>
        in case on_key_set t1 key val app of (app1, r) \<Rightarrow> ((t1, app1), r))"

definition delitem ::
  "'k \<Rightarrow> ('k, 'v) Table \<times> ('k, 'v) App \<Rightarrow>
   (('k, 'v) Table \<times> ('k, 'v) App) \<times> error option" where
  "delitem key ta =
     (case ta of (t, app) \<Rightarrow>
        let t1 = t\<lparr>data := (data t)(key := None)\<rparr>
        in case on_key_del t1 key app of (app1, r) \<Rightarrow> ((t1, app1), r))"

text \<open>
  \<open>_changelog_topic_name\<close> returns the format string itself.
\<close>

definition changelog_topic_name :: "('k, 'v) Table \<Rightarrow> string" where
  "changelog_topic_name t = ''{0.app.id}-{0.table_name}-changelog''"

text \<open>
  Python's \<open>str.format\<close> for the replacement fields that occur here: the text between
  braces is a field name, looked up in \<open>env\<close>; the value put in its place is not scanned
  again. The second argument is the field name read so far, when inside braces.
\<close>

fun format_scan :: "(string \<Rightarrow> string option) \<Rightarrow> string option \<Rightarrow> string \<Rightarrow> error + string" where
  "format_scan env None [] = Inr []"
| "format_scan env (Some f) [] = Inl ValueError"
| "format_scan env None (c # cs) =
     (if c = CHR ''{'' then format_scan env (Some []) cs
      else if c = CHR ''}'' then Inl ValueError
      else (case format_scan env None cs of Inl e \<Rightarrow> Inl e | Inr r \<Rightarrow> Inr (c # r)))"
| "format_scan env (Some f) (c # cs) =
     (if c = CHR ''}''
      then (case env f of
              None \<Rightarrow> Inl AttributeError
            | Some v \<Rightarrow> (case format_scan env None cs of Inl e \<Rightarrow> Inl e | Inr r \<Rightarrow> Inr (v @ r)))
      else format_scan env (Some (f @ [c])) cs)"

text \<open>
  The attributes of a table that a field name can reach from argument 0.
\<close>

definition table_field :: "('k, 'v) App \<Rightarrow> ('k, 'v) Table \<Rightarrow> string \<Rightarrow> string option" where
  "table_field app t f =
     (if f = ''0.app.id'' then Some (app_id app)
      else if f = ''0.table_name'' then Some (table_name t)
      else None)"

text \<open>
  Modelled from the spec: \<open>Stream.derive_topic\<close> of \<open>faust/streams.py\<close> is not among
  the sources. The spec (3, 6) says that the changelog topic is derived by substituting
  the application id and the table name into the name pattern; the pattern that
  \<open>_changelog_topic_name\<close> passes addresses both through argument 0, the table, so the
  model formats the name with the table.
\<close>

definition derive_topic :: "('k, 'v) App \<Rightarrow> ('k, 'v) Table \<Rightarrow> string \<Rightarrow> error + Topic" where
  "derive_topic app t name =
     (case format_scan (table_field app t) None name of
        Inl e \<Rightarrow> Inl e
      | Inr n \<Rightarrow> Inr (Topic n))"

text \<open>
  \<open>on_bind\<close>: open the store (the class's \<open>StateStore\<close>, or the one behind the URL
  \<open>self._store or self.app.store\<close>), derive the changelog topic, and register the table
  with the application. \<open>open_store\<close> stands for the stores of the deployment, by URL.
\<close>

definition on_bind ::
  "(string option \<Rightarrow> 'k \<rightharpoonup> 'v) \<Rightarrow> ('k, 'v) Table \<times> ('k, 'v) App \<Rightarrow>
   (('k, 'v) Table \<times> ('k, 'v) App) \<times> error option" where
  "on_bind open_store ta =
     (case ta of (t, app) \<Rightarrow>
        let url = (case store t of
                     None \<Rightarrow> app_store app
                   | Some u \<Rightarrow> if u = [] then app_store app else u);
            t1 = t\<lparr>data := (if state_store t then open_store None else open_store (Some url))\<rparr>
        in case derive_topic app t1 (changelog_topic_name t1) of
             Inl e \<Rightarrow> ((t1, app), Some e)
           | Inr ct \<Rightarrow>
               ((t1\<lparr>changelog_topic := Some ct\<rparr>,
                 app\<lparr>tables := tables app @ [table_name t1]\<rparr>), None))"

section \<open>The committable prefix\<close>

lemma consecutive_take_Suc:
  "consecutive (take (Suc j) (a # b # xs)) \<longleftrightarrow>
     (j = 0 \<or> (b = a + 1 \<and> consecutive (take j (b # xs))))"
  by (cases j) auto

text \<open>
  The first run that \<open>consecutive_numbers\<close> yields is a prefix of the list, is not empty,
  is consecutive, and no longer prefix is consecutive.
\<close>

lemma first_run:
  "xs \<noteq> [] \<Longrightarrow>
   \<exists>k rs. consecutive_numbers xs = take k xs # rs \<and> 0 < k \<and> k \<le> length xs \<and>
     consecutive (take k xs) \<and>
     (\<forall>j. j \<le> length xs \<and> consecutive (take j xs) \<longrightarrow> j \<le> k)"
proof (induction xs rule: consecutive_numbers.induct)
  case 1
  then show ?case by simp
next
  case (2 a)
  show ?case
    by (rule exI [of _ 1]) simp
next
  case (3 a b xs)
  show ?case
  proof (cases "b = a + 1")
    case True
    with 3 obtain k rs where k: "consecutive_numbers (b # xs) = take k (b # xs) # rs"
      "0 < k" "k \<le> length (b # xs)" "consecutive (take k (b # xs))"
      "\<forall>j. j \<le> length (b # xs) \<and> consecutive (take j (b # xs)) \<longrightarrow> j \<le> k"
      by auto
    have mx: "\<forall>j. j \<le> length (a # b # xs) \<and> consecutive (take j (a # b # xs)) \<longrightarrow> j \<le> Suc k"
    proof (intro allI impI)
      fix j assume j: "j \<le> length (a # b # xs) \<and> consecutive (take j (a # b # xs))"
      show "j \<le> Suc k"
      proof (cases j)
        case 0
        then show ?thesis by simp
      next
        case (Suc i)
        with j have "i = 0 \<or> consecutive (take i (b # xs))"
          using consecutive_take_Suc by blast
        moreover from j Suc have "i \<le> length (b # xs)" by simp
        ultimately show ?thesis using k(5) Suc by auto
      qed
    qed
    from k(2) obtain k' where k': "k = Suc k'" by (cases k) auto
    show ?thesis
      apply (rule exI [of _ "Suc k"], rule exI [of _ rs])
      using True k mx k' by simp
  next
    case False
    have "\<forall>j. j \<le> length (a # b # xs) \<and> consecutive (take j (a # b # xs)) \<longrightarrow> j \<le> 1"
    proof (intro allI impI)
      fix j assume j: "j \<le> length (a # b # xs) \<and> consecutive (take j (a # b # xs))"
      show "j \<le> 1"
      proof (cases j)
        case 0
        then show ?thesis by simp
      next
        case (Suc i)
        with j False have "i = 0" using consecutive_take_Suc by blast
        with Suc show ?thesis by simp
      qed
    qed
    then show ?thesis
      apply -
      apply (rule exI [of _ 1], rule exI [of _ "consecutive_numbers (b # xs)"])
      using False by simp
  qed
qed

lemma new_offset_empty:
  "acked_for tp s = [] \<Longrightarrow>
   new_offset tp s = (s\<lparr>acked := AList.update tp [] (acked s)\<rparr>, Inr None)"
  by (simp add: new_offset_def)

lemma new_offset_first_run:
  assumes "acked_for tp s = xs" and "xs \<noteq> []"
  shows "\<exists>k. 0 < k \<and> k \<le> length xs \<and> consecutive (take k xs) \<and>
           (\<forall>j. j \<le> length xs \<and> consecutive (take j xs) \<longrightarrow> j \<le> k) \<and>
           new_offset tp s =
             (s\<lparr>acked := AList.update tp (drop k xs) (acked s)\<rparr>, Inr (Some (xs ! (k - 1))))"
proof -
  from first_run [OF assms(2)] obtain k rs where
    k: "consecutive_numbers xs = take k xs # rs" "0 < k" "k \<le> length xs"
       "consecutive (take k xs)"
       "\<forall>j. j \<le> length xs \<and> consecutive (take j xs) \<longrightarrow> j \<le> k"
    by blast
  have ne: "take k xs \<noteq> []" using k(2) assms(2) by (cases xs) auto
  have len: "length (take k xs) = k" using k(3) by simp
  have lst: "last (take k xs) = xs ! (k - 1)"
    using ne len k(2) k(3) by (simp add: last_conv_nth)
  have "new_offset tp s =
      (s\<lparr>acked := AList.update tp (drop k xs) (acked s)\<rparr>, Inr (Some (xs ! (k - 1))))"
    using assms k(1) ne len lst by (simp add: new_offset_def Let_def)
  with k show ?thesis by blast
qed

text \<open>
  C1. Let \<open>xs\<close> be the ack list of a topic-partition. If \<open>xs\<close> is empty, \<open>_new_offset\<close>
  returns no offset. If it is not empty, there is a length \<open>k \<ge> 1\<close> such that the
  first \<open>k\<close> elements are consecutive (each the predecessor plus one), no longer prefix
  of \<open>xs\<close> is, the offset returned is the \<open>k\<close>-th element, and the ack list afterwards is
  \<open>xs\<close> without its first \<open>k\<close> elements, nothing else of the consumer being changed. This
  holds for every list, so for the sorted lists the consumer keeps.
\<close>

theorem new_offset_committable_prefix:
  fixes s :: "'m Consumer"
  assumes "acked_for tp s = xs"
  shows "(xs = [] \<longrightarrow>
            new_offset tp s = (s\<lparr>acked := AList.update tp [] (acked s)\<rparr>, Inr None)) \<and>
         (xs \<noteq> [] \<longrightarrow>
            (\<exists>k. 0 < k \<and> k \<le> length xs \<and> consecutive (take k xs) \<and>
               (\<forall>j. j \<le> length xs \<and> consecutive (take j xs) \<longrightarrow> j \<le> k) \<and>
               snd (new_offset tp s) = Inr (Some (xs ! (k - 1))) \<and>
               fst (new_offset tp s) = s\<lparr>acked := AList.update tp (drop k xs) (acked s)\<rparr> \<and>
               acked_for tp (fst (new_offset tp s)) = drop k xs))"
proof (intro conjI impI)
  assume "xs = []"
  with assms show "new_offset tp s = (s\<lparr>acked := AList.update tp [] (acked s)\<rparr>, Inr None)"
    by (simp add: new_offset_empty)
next
  assume "xs \<noteq> []"
  from new_offset_first_run [OF assms this] obtain k where
    k: "0 < k" "k \<le> length xs" "consecutive (take k xs)"
       "\<forall>j. j \<le> length xs \<and> consecutive (take j xs) \<longrightarrow> j \<le> k"
       "new_offset tp s =
          (s\<lparr>acked := AList.update tp (drop k xs) (acked s)\<rparr>, Inr (Some (xs ! (k - 1))))"
    by blast
  have "acked_for tp (fst (new_offset tp s)) = drop k xs"
    using k(5) by (simp add: acked_for_def update_conv')
  with k show "\<exists>k. 0 < k \<and> k \<le> length xs \<and> consecutive (take k xs) \<and>
               (\<forall>j. j \<le> length xs \<and> consecutive (take j xs) \<longrightarrow> j \<le> k) \<and>
               snd (new_offset tp s) = Inr (Some (xs ! (k - 1))) \<and>
               fst (new_offset tp s) = s\<lparr>acked := AList.update tp (drop k xs) (acked s)\<rparr> \<and>
               acked_for tp (fst (new_offset tp s)) = drop k xs"
    by (intro exI [of _ k]) simp
qed

text \<open>
  The example of the source's comment, acked out of order: with 34, 35, 36 and 40 acked
  the offset is 36 and 40 stays behind.
\<close>

theorem new_offset_committable_prefix_witness:
  "snd (new_offset (TopicPartition ''t'' 0)
     (run [Ack (TopicPartition ''t'' 0) 35, Ack (TopicPartition ''t'' 0) 34,
           Ack (TopicPartition ''t'' 0) 40, Ack (TopicPartition ''t'' 0) 36]
        (init 0 True :: unit Consumer))) = Inr (Some 36) \<and>
   acked_for (TopicPartition ''t'' 0) (fst (new_offset (TopicPartition ''t'' 0)
     (run [Ack (TopicPartition ''t'' 0) 35, Ack (TopicPartition ''t'' 0) 34,
           Ack (TopicPartition ''t'' 0) 40, Ack (TopicPartition ''t'' 0) 36]
        (init 0 True :: unit Consumer)))) = [40]"
proof -
  let ?tp = "TopicPartition ''t'' 0"
  let ?s = "run [Ack ?tp 35, Ack ?tp 34, Ack ?tp 40, Ack ?tp 36] (init 0 True :: unit Consumer)"
  have xs: "acked_for ?tp ?s = [34, 35, 36, 40]"
    by (simp add: run_def ack_def init_def acked_for_def)
  from new_offset_committable_prefix [OF xs] obtain k where
    k: "0 < k" "k \<le> 4" "consecutive (take k [34, 35, 36, 40])"
       "\<forall>j. j \<le> length [34, 35, 36, 40 :: int] \<and> consecutive (take j [34, 35, 36, 40]) \<longrightarrow> j \<le> k"
       "snd (new_offset ?tp ?s) = Inr (Some ([34, 35, 36, 40] ! (k - 1)))"
       "acked_for ?tp (fst (new_offset ?tp ?s)) = drop k [34, 35, 36, 40]"
    by auto
  have "consecutive (take 3 [34, 35, 36, 40])" by (simp add: numeral_3_eq_3)
  with k(4) have "3 \<le> k" by simp
  moreover have "k \<noteq> 4" using k(3) by (auto simp: numeral_eq_Suc)
  ultimately have "k = 3" using k(2) by simp
  with k(5,6) show ?thesis by (simp add: numeral_3_eq_3)
qed

section \<open>Acking an offset twice\<close>

lemmas eval_defs = run_def ack_def init_def acked_for_def maybe_commit_def new_offset_def
  should_commit_def do_commit_def accepting_def failing_def

lemma acked_for_ack:
  "acked_for tp' (ack tp offset s) =
     (if tp' = tp then sort (acked_for tp s @ [offset]) else acked_for tp' s)"
  by (simp add: ack_def acked_for_def update_conv')

lemma sort_snoc_sorted: "sorted ys \<Longrightarrow> sort (ys @ [a]) = insort a (ys :: int list)"
  by (rule properties_for_sort) (simp_all add: sorted_insort)

text \<open>
  C2, as stated, fails. With 6 acked, acking 5 twice leaves the list 5, 5, 6 where one
  ack leaves 5, 6; and the next \<open>maybe_commit\<close> then commits offset 5 where after the
  single ack it commits offset 6.
\<close>

theorem ack_twice_counterexample:
  "acked (ack (TopicPartition ''t'' 0) 5 (ack (TopicPartition ''t'' 0) 5
            (run [Ack (TopicPartition ''t'' 0) 6] (init 0 True :: unit Consumer)))) \<noteq>
   acked (ack (TopicPartition ''t'' 0) 5
            (run [Ack (TopicPartition ''t'' 0) 6] (init 0 True :: unit Consumer))) \<and>
   acked (ack (TopicPartition ''t'' 0) 5 (ack (TopicPartition ''t'' 0) 5
            (run [Ack (TopicPartition ''t'' 0) 6] (init 0 True :: unit Consumer)))) =
     [(TopicPartition ''t'' 0, [5, 5, 6])] \<and>
   acked (ack (TopicPartition ''t'' 0) 5
            (run [Ack (TopicPartition ''t'' 0) 6] (init 0 True :: unit Consumer))) =
     [(TopicPartition ''t'' 0, [5, 6])] \<and>
   calls (fst (maybe_commit accepting (ack (TopicPartition ''t'' 0) 5 (ack (TopicPartition ''t'' 0) 5
            (run [Ack (TopicPartition ''t'' 0) 6] (init 0 True :: unit Consumer)))))) =
     [DriverCommit (TopicPartition ''t'' 0) 5 ()] \<and>
   calls (fst (maybe_commit accepting (ack (TopicPartition ''t'' 0) 5
            (run [Ack (TopicPartition ''t'' 0) 6] (init 0 True :: unit Consumer))))) =
     [DriverCommit (TopicPartition ''t'' 0) 6 ()]"
  by (simp add: run_def ack_def init_def acked_for_def maybe_commit_def new_offset_def
      should_commit_def do_commit_def accepting_def)

text \<open>
  C2, amended. \<open>ack\<close> keeps duplicates: after the second ack of the same offset the ack
  list of the topic-partition is the list after the first ack with the offset inserted
  once more in sorted position, so it is sorted, holds one more copy of the offset and
  holds the same distinct offsets; the ack lists of the other topic-partitions and the
  current offsets are as after the first ack. (What the following commits are is not
  part of the statement: a duplicate ends the consecutive prefix.)
\<close>

theorem ack_twice_keeps_both:
  "acked_for tp (ack tp offset (ack tp offset s)) =
     insort offset (acked_for tp (ack tp offset s)) \<and>
   sorted (acked_for tp (ack tp offset (ack tp offset s))) \<and>
   mset (acked_for tp (ack tp offset (ack tp offset s))) =
     mset (acked_for tp (ack tp offset s)) + {#offset#} \<and>
   set (acked_for tp (ack tp offset (ack tp offset s))) =
     set (acked_for tp (ack tp offset s)) \<and>
   (\<forall>tp'. tp' \<noteq> tp \<longrightarrow>
      acked_for tp' (ack tp offset (ack tp offset s)) = acked_for tp' (ack tp offset s)) \<and>
   current_offset (ack tp offset (ack tp offset s)) = current_offset (ack tp offset s)"
proof -
  let ?one = "acked_for tp (ack tp offset s)"
  let ?two = "acked_for tp (ack tp offset (ack tp offset s))"
  have srt: "sorted ?one" by (simp add: acked_for_ack)
  have mem: "offset \<in> set ?one" by (simp add: acked_for_ack)
  have 1: "?two = insort offset ?one"
    using srt by (simp add: acked_for_ack sort_snoc_sorted)
  have 2: "sorted ?two" unfolding 1 using srt by (simp add: sorted_insort)
  have 3: "mset ?two = mset ?one + {#offset#}" unfolding 1 by simp
  have 4: "set ?two = set ?one" unfolding 1 using mem by (auto simp: set_insort_key)
  have 5: "\<forall>tp'. tp' \<noteq> tp \<longrightarrow>
      acked_for tp' (ack tp offset (ack tp offset s)) = acked_for tp' (ack tp offset s)"
    by (simp add: acked_for_ack)
  have 6: "current_offset (ack tp offset (ack tp offset s)) = current_offset (ack tp offset s)"
    by (simp add: ack_def)
  from 1 2 3 4 5 6 show ?thesis by blast
qed

theorem ack_twice_keeps_both_witness:
  "acked_for (TopicPartition ''t'' 0)
     (ack (TopicPartition ''t'' 0) 5 (ack (TopicPartition ''t'' 0) 5 (init 0 True :: unit Consumer))) =
     [5, 5] \<and>
   acked_for (TopicPartition ''u'' 0)
     (ack (TopicPartition ''t'' 0) 5 (ack (TopicPartition ''t'' 0) 5 (init 0 True :: unit Consumer))) =
     []"
proof -
  let ?tp = "TopicPartition ''t'' 0"
  let ?s = "init 0 True :: unit Consumer"
  have one: "acked_for ?tp (ack ?tp 5 ?s) = [5]"
    by (simp add: ack_def acked_for_def init_def)
  have other: "acked_for (TopicPartition ''u'' 0) (ack ?tp 5 ?s) = []"
    by (simp add: ack_def acked_for_def init_def)
  have ne: "TopicPartition ''u'' 0 \<noteq> ?tp" by simp
  from ack_twice_keeps_both [of ?tp 5 ?s] one other ne show ?thesis by simp
qed

section \<open>When an offset is committed\<close>

text \<open>
  C3, as stated, fails: for a topic-partition that was never committed,
  \<open>_should_commit\<close> answers true for offset 0, which is not greater than 0.
\<close>

theorem should_commit_zero_counterexample:
  "should_commit (TopicPartition ''t'' 0) 0 (init 0 True :: unit Consumer) \<and>
   current_offset (init 0 True :: unit Consumer) (TopicPartition ''t'' 0) = None \<and>
   \<not> (0 :: int) > 0"
  by (simp add: should_commit_def init_def)

text \<open>
  C3, amended. \<open>_should_commit(tp, offset)\<close> is true exactly when the topic-partition
  has never been committed (whatever the offset is, 0 included), or the offset is not 0
  and is greater than the current offset.
\<close>

theorem should_commit_iff:
  "should_commit tp offset s \<longleftrightarrow>
     (current_offset s tp = None \<or>
      (\<exists>c. current_offset s tp = Some c \<and> offset \<noteq> 0 \<and> c < offset))"
  by (simp add: should_commit_def split: option.splits)

theorem should_commit_iff_witness:
  "should_commit (TopicPartition ''t'' 0) 0 (init 0 True :: unit Consumer) \<and>
   \<not> should_commit (TopicPartition ''t'' 0) 2
       ((init 0 True :: unit Consumer)\<lparr>current_offset := [TopicPartition ''t'' 0 \<mapsto> 2]\<rparr>) \<and>
   should_commit (TopicPartition ''t'' 0) 3
       ((init 0 True :: unit Consumer)\<lparr>current_offset := [TopicPartition ''t'' 0 \<mapsto> 2]\<rparr>)"
  using should_commit_iff [of "TopicPartition ''t'' 0" 0 "init 0 True :: unit Consumer"]
    should_commit_iff [of "TopicPartition ''t'' 0" 2
      "(init 0 True :: unit Consumer)\<lparr>current_offset := [TopicPartition ''t'' 0 \<mapsto> 2]\<rparr>"]
    should_commit_iff [of "TopicPartition ''t'' 0" 3
      "(init 0 True :: unit Consumer)\<lparr>current_offset := [TopicPartition ''t'' 0 \<mapsto> 2]\<rparr>"]
  by (simp add: init_def)

section \<open>The commit loop, one topic-partition at a time\<close>

lemma new_offset_state:
  "\<exists>ys. fst (new_offset tp s) = s\<lparr>acked := AList.update tp ys (acked s)\<rparr>"
  by (auto simp: new_offset_def Let_def split: list.splits)

lemma new_offset_frame:
  assumes "new_offset tp s = (s1, r)"
  shows "current_offset s1 = current_offset s" and "calls s1 = calls s"
    and "tp' \<noteq> tp \<Longrightarrow> acked_for tp' s1 = acked_for tp' s"
proof -
  from new_offset_state [of tp s] assms obtain ys where
    s1: "s1 = s\<lparr>acked := AList.update tp ys (acked s)\<rparr>" by auto
  show "current_offset s1 = current_offset s" by (simp add: s1)
  show "calls s1 = calls s" by (simp add: s1)
  show "tp' \<noteq> tp \<Longrightarrow> acked_for tp' s1 = acked_for tp' s"
    by (simp add: s1 acked_for_def update_conv')
qed

lemma should_commit_cong:
  "current_offset s1 tp = current_offset s tp \<Longrightarrow> should_commit tp offset s1 = should_commit tp offset s"
  by (simp add: should_commit_def)

text \<open>
  \<open>_new_offset\<close> never raises: a list that is not empty has a first run, and that run is
  not empty.
\<close>

lemma new_offset_total: "\<exists>s1 res. new_offset tp s = (s1, Inr res)"
proof (cases "acked_for tp s = []")
  case True
  then show ?thesis by (simp add: new_offset_empty)
next
  case False
  from new_offset_first_run [OF refl False] show ?thesis by blast
qed

text \<open>
  The loop leaves alone every topic-partition it does not visit.
\<close>

lemma commit_each_frame:
  assumes "tp \<notin> set tps" and "commit_each drv tps did s = (s', r)"
  shows "acked_for tp s' = acked_for tp s \<and> current_offset s' tp = current_offset s tp \<and>
         filter (is_commit_for tp) (calls s') = filter (is_commit_for tp) (calls s)"
  using assms
proof (induction tps arbitrary: s did)
  case Nil
  then show ?case by simp
next
  case (Cons tp0 tps)
  from Cons.prems have ne: "tp \<noteq> tp0" and nin: "tp \<notin> set tps" by auto
  obtain s1 res where n: "new_offset tp0 s = (s1, Inr res)" using new_offset_total by blast
  note fr = new_offset_frame [OF n]
  have a1: "acked_for tp s1 = acked_for tp s" using fr(3) ne by simp
  show ?case
  proof (cases res)
    case None
    with Cons.prems n have "commit_each drv tps did s1 = (s', r)" by simp
    from Cons.IH [OF nin this] a1 fr(1,2) show ?thesis by simp
  next
    case (Some offset)
    show ?thesis
    proof (cases "should_commit tp0 offset s1")
      case False
      with Cons.prems n Some have "commit_each drv tps did s1 = (s', r)" by simp
      from Cons.IH [OF nin this] a1 fr(1,2) show ?thesis by simp
    next
      case True
      let ?s3 = "s1\<lparr>current_offset := (current_offset s1)(tp0 \<mapsto> offset),
                    calls := calls s1 @ [DriverCommit tp0 offset (get_topic_meta drv (topic tp0))]\<rparr>"
      have a3: "acked_for tp ?s3 = acked_for tp s" using a1 by (simp add: acked_for_def)
      have c3: "current_offset ?s3 tp = current_offset s tp" using fr(1) ne by simp
      have f3: "filter (is_commit_for tp) (calls ?s3) = filter (is_commit_for tp) (calls s)"
        using fr(2) ne by simp
      show ?thesis
      proof (cases "commit drv tp0 offset (get_topic_meta drv (topic tp0))")
        case None
        with Cons.prems n Some True have "commit_each drv tps True ?s3 = (s', r)"
          by (simp add: do_commit_def Let_def)
        from Cons.IH [OF nin this] a3 c3 f3 show ?thesis by simp
      next
        case (Some e)
        with Cons.prems n \<open>res = Some offset\<close> True have "s' = ?s3"
          by (simp add: do_commit_def Let_def)
        with a3 c3 f3 show ?thesis by simp
      qed
    qed
  qed
qed

lemma commit_each_prefix_removed:
  assumes "distinct tps" and "tp \<in> set tps" and "commit_each drv tps did s = (s', Inr b)"
    and "acked_for tp s = xs" and "xs \<noteq> []"
  shows "\<exists>k. 0 < k \<and> k \<le> length xs \<and> consecutive (take k xs) \<and>
           (\<forall>j. j \<le> length xs \<and> consecutive (take j xs) \<longrightarrow> j \<le> k) \<and>
           acked_for tp s' = drop k xs \<and>
           (\<not> should_commit tp (xs ! (k - 1)) s \<longrightarrow>
              current_offset s' tp = current_offset s tp \<and>
              filter (is_commit_for tp) (calls s') = filter (is_commit_for tp) (calls s))"
  using assms
proof (induction tps arbitrary: s did)
  case Nil
  then show ?case by simp
next
  case (Cons tp0 tps)
  from Cons.prems(1) have d: "distinct tps" and nin0: "tp0 \<notin> set tps" by auto
  show ?case
  proof (cases "tp0 = tp")
    case True
    from new_offset_first_run [OF Cons.prems(4,5)] obtain k where
      k: "0 < k" "k \<le> length xs" "consecutive (take k xs)"
         "\<forall>j. j \<le> length xs \<and> consecutive (take j xs) \<longrightarrow> j \<le> k"
         "new_offset tp s =
            (s\<lparr>acked := AList.update tp (drop k xs) (acked s)\<rparr>, Inr (Some (xs ! (k - 1))))"
      by blast
    let ?s1 = "s\<lparr>acked := AList.update tp (drop k xs) (acked s)\<rparr>"
    let ?off = "xs ! (k - 1)"
    have a1: "acked_for tp ?s1 = drop k xs" by (simp add: acked_for_def update_conv')
    have sc: "should_commit tp ?off ?s1 = should_commit tp ?off s" by (simp add: should_commit_def)
    from nin0 True have nin: "tp \<notin> set tps" by simp
    have "acked_for tp s' = drop k xs \<and>
          (\<not> should_commit tp ?off s \<longrightarrow>
              current_offset s' tp = current_offset s tp \<and>
              filter (is_commit_for tp) (calls s') = filter (is_commit_for tp) (calls s))"
    proof (cases "should_commit tp ?off s")
      case False
      with Cons.prems(3) True k(5) sc have "commit_each drv tps did ?s1 = (s', Inr b)" by simp
      from commit_each_frame [OF nin this] a1 show ?thesis by simp
    next
      case sct: True
      let ?s3 = "?s1\<lparr>current_offset := (current_offset ?s1)(tp \<mapsto> ?off),
                    calls := calls ?s1 @ [DriverCommit tp ?off (get_topic_meta drv (topic tp))]\<rparr>"
      have a3: "acked_for tp ?s3 = drop k xs" by (simp add: acked_for_def update_conv')
      show ?thesis
      proof (cases "commit drv tp ?off (get_topic_meta drv (topic tp))")
        case None
        with Cons.prems(3) True k(5) sc sct have "commit_each drv tps True ?s3 = (s', Inr b)"
          by (simp add: do_commit_def Let_def)
        from commit_each_frame [OF nin this] a3 sct show ?thesis by simp
      next
        case (Some e)
        with Cons.prems(3) True k(5) sc sct have False
          by (simp add: do_commit_def Let_def)
        then show ?thesis ..
      qed
    qed
    with k(1-4) show ?thesis by blast
  next
    case False
    with Cons.prems(2) have mem: "tp \<in> set tps" by simp
    from False have ne: "tp \<noteq> tp0" by simp
    obtain s1 res where n: "new_offset tp0 s = (s1, Inr res)" using new_offset_total by blast
    note fr = new_offset_frame [OF n]
    have a1: "acked_for tp s1 = xs" using fr(3) ne Cons.prems(4) by simp
    have "\<exists>sN didN. commit_each drv tps didN sN = (s', Inr b) \<and> acked_for tp sN = xs \<and>
            current_offset sN tp = current_offset s tp \<and>
            filter (is_commit_for tp) (calls sN) = filter (is_commit_for tp) (calls s)"
    proof (cases res)
      case None
      with Cons.prems(3) n have "commit_each drv tps did s1 = (s', Inr b)" by simp
      with a1 fr(1,2) show ?thesis by auto
    next
      case (Some offset)
      show ?thesis
      proof (cases "should_commit tp0 offset s1")
        case False
        with Cons.prems(3) n Some have "commit_each drv tps did s1 = (s', Inr b)" by simp
        with a1 fr(1,2) show ?thesis by auto
      next
        case True
        let ?s3 = "s1\<lparr>current_offset := (current_offset s1)(tp0 \<mapsto> offset),
                      calls := calls s1 @ [DriverCommit tp0 offset (get_topic_meta drv (topic tp0))]\<rparr>"
        have a3: "acked_for tp ?s3 = xs" using a1 by (simp add: acked_for_def)
        have c3: "current_offset ?s3 tp = current_offset s tp" using fr(1) ne by simp
        have f3: "filter (is_commit_for tp) (calls ?s3) = filter (is_commit_for tp) (calls s)"
          using fr(2) ne by simp
        show ?thesis
        proof (cases "commit drv tp0 offset (get_topic_meta drv (topic tp0))")
          case None
          with Cons.prems(3) n Some True have "commit_each drv tps True ?s3 = (s', Inr b)"
            by (simp add: do_commit_def Let_def)
          with a3 c3 f3 show ?thesis by blast
        next
          case (Some e)
          with Cons.prems(3) n \<open>res = Some offset\<close> True have False
            by (simp add: do_commit_def Let_def)
          then show ?thesis ..
        qed
      qed
    qed
    then obtain sN didN where
      sN: "commit_each drv tps didN sN = (s', Inr b)" "acked_for tp sN = xs"
          "current_offset sN tp = current_offset s tp"
          "filter (is_commit_for tp) (calls sN) = filter (is_commit_for tp) (calls s)"
      by blast
    from Cons.IH [OF d mem sN(1,2) Cons.prems(5)] obtain k where
      k: "0 < k" "k \<le> length xs" "consecutive (take k xs)"
         "\<forall>j. j \<le> length xs \<and> consecutive (take j xs) \<longrightarrow> j \<le> k"
         "acked_for tp s' = drop k xs"
         "\<not> should_commit tp (xs ! (k - 1)) sN \<longrightarrow>
              current_offset s' tp = current_offset sN tp \<and>
              filter (is_commit_for tp) (calls s') = filter (is_commit_for tp) (calls sN)"
      by blast
    have "should_commit tp (xs ! (k - 1)) sN = should_commit tp (xs ! (k - 1)) s"
      using sN(3) by (rule should_commit_cong)
    with k(6) sN(3,4) have
      "\<not> should_commit tp (xs ! (k - 1)) s \<longrightarrow>
              current_offset s' tp = current_offset s tp \<and>
              filter (is_commit_for tp) (calls s') = filter (is_commit_for tp) (calls s)"
      by simp
    with k(1-5) show ?thesis by blast
  qed
qed

text \<open>
  The keys of a dictionary are distinct; for the association list this is an invariant
  of every state reached from the initial one.
\<close>

lemma new_offset_distinct:
  assumes "new_offset tp s = (s1, r)" and "distinct (map fst (acked s))"
  shows "distinct (map fst (acked s1))"
proof -
  from new_offset_state [of tp s] assms(1) obtain ys where
    "s1 = s\<lparr>acked := AList.update tp ys (acked s)\<rparr>" by auto
  with assms(2) show ?thesis by (simp add: distinct_update)
qed

lemma commit_each_distinct:
  "commit_each drv tps did s = (s', r) \<Longrightarrow> distinct (map fst (acked s)) \<Longrightarrow>
   distinct (map fst (acked s'))"
proof (induction tps arbitrary: s did)
  case Nil
  then show ?case by simp
next
  case (Cons tp tps)
  obtain s1 res where n: "new_offset tp s = (s1, Inr res)" using new_offset_total by blast
  have d1: "distinct (map fst (acked s1))" using n Cons.prems(2) by (rule new_offset_distinct)
  show ?case
  proof (cases res)
    case None
    with Cons.prems(1) n have "commit_each drv tps did s1 = (s', r)" by simp
    from Cons.IH [OF this d1] show ?thesis .
  next
    case (Some offset)
    show ?thesis
    proof (cases "should_commit tp offset s1")
      case False
      with Cons.prems(1) n Some have "commit_each drv tps did s1 = (s', r)" by simp
      from Cons.IH [OF this d1] show ?thesis .
    next
      case True
      let ?s3 = "s1\<lparr>current_offset := (current_offset s1)(tp \<mapsto> offset),
                    calls := calls s1 @ [DriverCommit tp offset (get_topic_meta drv (topic tp))]\<rparr>"
      have d3: "distinct (map fst (acked ?s3))" using d1 by simp
      show ?thesis
      proof (cases "commit drv tp offset (get_topic_meta drv (topic tp))")
        case None
        with Cons.prems(1) n Some True have "commit_each drv tps True ?s3 = (s', r)"
          by (simp add: do_commit_def Let_def)
        from Cons.IH [OF this d3] show ?thesis .
      next
        case (Some e)
        with Cons.prems(1) n \<open>res = Some offset\<close> True have "s' = ?s3"
          by (simp add: do_commit_def Let_def)
        with d3 show ?thesis by simp
      qed
    qed
  qed
qed

lemma step_distinct: "distinct (map fst (acked s)) \<Longrightarrow> distinct (map fst (acked (step x s)))"
proof (cases x)
  case (Ack tp offset)
  assume "distinct (map fst (acked s))"
  with Ack show ?thesis by (simp add: ack_def distinct_update)
next
  case (MaybeCommit drv)
  assume "distinct (map fst (acked s))"
  with MaybeCommit show ?thesis
    using commit_each_distinct [of drv "map fst (acked s)" False s]
    by (cases "maybe_commit drv s") (simp add: maybe_commit_def)
qed

lemma run_distinct: "distinct (map fst (acked s)) \<Longrightarrow> distinct (map fst (acked (run ops s)))"
proof (induction ops arbitrary: s)
  case Nil
  then show ?case by (simp add: run_def)
next
  case (Cons x ops)
  from Cons.IH [OF step_distinct [OF Cons.prems]] show ?case by (simp add: run_def)
qed

lemma reachable_distinct: "distinct (map fst (acked (run ops (init cid flag))))"
  by (rule run_distinct) (simp add: init_def)

section \<open>Acked offsets that are dropped without a commit\<close>

text \<open>
  C7, as stated, fails for a call of \<open>maybe_commit\<close> that raises. The dictionary holds
  \<open>b\<close> before \<open>a\<close>; the commit for \<open>b\<close> raises, so the loop never reaches \<open>a\<close>, whose
  ack list is 1 and whose offset 1 \<open>_should_commit\<close> rejects: the list is still 1
  afterwards.
\<close>

theorem maybe_commit_raise_keeps_prefix_counterexample:
  "TopicPartition ''a'' 0 \<in> set (map fst (acked
     (run [Ack (TopicPartition ''b'' 0) 1, Ack (TopicPartition ''a'' 0) 1,
           Ack (TopicPartition ''a'' 0) 2, MaybeCommit accepting,
           Ack (TopicPartition ''b'' 0) 2, Ack (TopicPartition ''a'' 0) 1] (init 0 True)))) \<and>
   acked_for (TopicPartition ''a'' 0)
     (run [Ack (TopicPartition ''b'' 0) 1, Ack (TopicPartition ''a'' 0) 1,
           Ack (TopicPartition ''a'' 0) 2, MaybeCommit accepting,
           Ack (TopicPartition ''b'' 0) 2, Ack (TopicPartition ''a'' 0) 1] (init 0 True)) = [1] \<and>
   \<not> should_commit (TopicPartition ''a'' 0) 1
     (run [Ack (TopicPartition ''b'' 0) 1, Ack (TopicPartition ''a'' 0) 1,
           Ack (TopicPartition ''a'' 0) 2, MaybeCommit accepting,
           Ack (TopicPartition ''b'' 0) 2, Ack (TopicPartition ''a'' 0) 1] (init 0 True)) \<and>
   acked_for (TopicPartition ''a'' 0) (fst (maybe_commit failing
     (run [Ack (TopicPartition ''b'' 0) 1, Ack (TopicPartition ''a'' 0) 1,
           Ack (TopicPartition ''a'' 0) 2, MaybeCommit accepting,
           Ack (TopicPartition ''b'' 0) 2, Ack (TopicPartition ''a'' 0) 1] (init 0 True)))) = [1]"
proof -
  let ?a = "TopicPartition ''a'' 0"
  let ?b = "TopicPartition ''b'' 0"
  let ?s = "run [Ack ?b 1, Ack ?a 1, Ack ?a 2, MaybeCommit accepting, Ack ?b 2, Ack ?a 1]
              (init 0 True)"
  have s: "?s = \<lparr>consumer_id = 0, autoack = True, autoack_flags = Map.empty, dirty_messages = [],
      acked = [(?b, [2]), (?a, [1])], current_offset = [?b \<mapsto> 1, ?a \<mapsto> 2],
      recently_acked = [], calls = [DriverCommit ?b 1 (), DriverCommit ?a 2 ()]\<rparr>"
    by (simp add: eval_defs)
  show ?thesis unfolding s by (simp add: eval_defs)
qed

text \<open>
  C7, amended. Let \<open>maybe_commit\<close> return (no driver commit raises), and let \<open>tp\<close> be a
  tracked topic-partition whose ack list \<open>xs\<close> is not empty. Then the longest
  consecutive prefix of \<open>xs\<close>, of some length \<open>k \<ge> 1\<close>, is gone from the ack list
  afterwards, whether or not the offset is committed; and when \<open>_should_commit\<close> is
  false for the offset computed (the last element of the prefix), the current offset of
  \<open>tp\<close> is unchanged and the calls made to the driver hold no new commit for \<open>tp\<close>.
\<close>

theorem maybe_commit_discards_prefix:
  assumes "distinct (map fst (acked s))" and "tp \<in> set (map fst (acked s))"
    and "maybe_commit drv s = (s', Inr b)"
    and "acked_for tp s = xs" and "xs \<noteq> []"
  shows "\<exists>k. 0 < k \<and> k \<le> length xs \<and> consecutive (take k xs) \<and>
           (\<forall>j. j \<le> length xs \<and> consecutive (take j xs) \<longrightarrow> j \<le> k) \<and>
           acked_for tp s' = drop k xs \<and>
           (\<not> should_commit tp (xs ! (k - 1)) s \<longrightarrow>
              current_offset s' tp = current_offset s tp \<and>
              filter (is_commit_for tp) (calls s') = filter (is_commit_for tp) (calls s))"
  using assms commit_each_prefix_removed [of "map fst (acked s)" tp drv False s s' b xs]
  by (simp add: maybe_commit_def)

text \<open>
  After 1 and 2 are committed, an ack of offset 1 arrives: the next \<open>maybe_commit\<close>
  drops it, and the only commit for the topic-partition is the earlier one.
\<close>

theorem maybe_commit_discards_prefix_witness:
  "acked_for (TopicPartition ''t'' 0)
     (run [Ack (TopicPartition ''t'' 0) 1, Ack (TopicPartition ''t'' 0) 2, MaybeCommit accepting,
           Ack (TopicPartition ''t'' 0) 1] (init 0 True)) = [1] \<and>
   \<not> should_commit (TopicPartition ''t'' 0) 1
     (run [Ack (TopicPartition ''t'' 0) 1, Ack (TopicPartition ''t'' 0) 2, MaybeCommit accepting,
           Ack (TopicPartition ''t'' 0) 1] (init 0 True)) \<and>
   acked_for (TopicPartition ''t'' 0) (fst (maybe_commit accepting
     (run [Ack (TopicPartition ''t'' 0) 1, Ack (TopicPartition ''t'' 0) 2, MaybeCommit accepting,
           Ack (TopicPartition ''t'' 0) 1] (init 0 True)))) = [] \<and>
   current_offset (fst (maybe_commit accepting
     (run [Ack (TopicPartition ''t'' 0) 1, Ack (TopicPartition ''t'' 0) 2, MaybeCommit accepting,
           Ack (TopicPartition ''t'' 0) 1] (init 0 True)))) (TopicPartition ''t'' 0) = Some 2 \<and>
   filter (is_commit_for (TopicPartition ''t'' 0)) (calls (fst (maybe_commit accepting
     (run [Ack (TopicPartition ''t'' 0) 1, Ack (TopicPartition ''t'' 0) 2, MaybeCommit accepting,
           Ack (TopicPartition ''t'' 0) 1] (init 0 True))))) =
     [DriverCommit (TopicPartition ''t'' 0) 2 ()]"
proof -
  let ?tp = "TopicPartition ''t'' 0"
  let ?s = "run [Ack ?tp 1, Ack ?tp 2, MaybeCommit accepting, Ack ?tp 1] (init 0 True)"
  let ?s' = "fst (maybe_commit accepting ?s)"
  have s: "?s = \<lparr>consumer_id = 0, autoack = True, autoack_flags = Map.empty, dirty_messages = [],
      acked = [(?tp, [1])], current_offset = [?tp \<mapsto> 2],
      recently_acked = [], calls = [DriverCommit ?tp 2 ()]\<rparr>"
    by (simp add: eval_defs)
  have d: "distinct (map fst (acked ?s))" unfolding s by simp
  have m: "?tp \<in> set (map fst (acked ?s))" unfolding s by simp
  have r: "maybe_commit accepting ?s = (?s', Inr False)" unfolding s by (simp add: eval_defs)
  have xs: "acked_for ?tp ?s = [1]" unfolding s by (simp add: acked_for_def)
  have nsc: "\<not> should_commit ?tp 1 ?s" unfolding s by (simp add: should_commit_def)
  have cur: "current_offset ?s ?tp = Some 2" unfolding s by simp
  have cs: "filter (is_commit_for ?tp) (calls ?s) = [DriverCommit ?tp 2 ()]" unfolding s by simp
  from maybe_commit_discards_prefix [OF d m r xs] obtain k where
    k: "0 < k" "k \<le> length [1 :: int]" "acked_for ?tp ?s' = drop k [1]"
       "\<not> should_commit ?tp ([1] ! (k - 1)) ?s \<longrightarrow>
          current_offset ?s' ?tp = current_offset ?s ?tp \<and>
          filter (is_commit_for ?tp) (calls ?s') = filter (is_commit_for ?tp) (calls ?s)"
    by auto
  from k(1,2) have "k = 1" by simp
  with k(3,4) nsc cur cs xs show ?thesis by simp
qed

section \<open>The current offset never decreases\<close>

lemma offsets_le_refl: "offsets_le s s"
  by (simp add: offsets_le_def)

lemma offsets_le_trans: "offsets_le s s1 \<Longrightarrow> offsets_le s1 s2 \<Longrightarrow> offsets_le s s2"
  unfolding offsets_le_def by (meson order_trans)

lemma offsets_le_eq: "current_offset s1 = current_offset s \<Longrightarrow> offsets_le s s1"
  by (simp add: offsets_le_def)

lemma offsets_le_update:
  "should_commit tp offset s \<Longrightarrow>
   offsets_le s (s\<lparr>current_offset := (current_offset s)(tp \<mapsto> offset)\<rparr>)"
  by (auto simp: offsets_le_def should_commit_def split: option.splits)

lemma commit_each_offsets_le:
  "commit_each drv tps did s = (s', r) \<Longrightarrow> offsets_le s s'"
proof (induction tps arbitrary: s did)
  case Nil
  then show ?case by (simp add: offsets_le_refl)
next
  case (Cons tp tps)
  obtain s1 r1 where n: "new_offset tp s = (s1, r1)" by (cases "new_offset tp s")
  have le1: "offsets_le s s1" using new_offset_frame(1) [OF n] by (rule offsets_le_eq)
  show ?case
  proof (cases r1)
    case (Inl e)
    with Cons.prems n le1 show ?thesis by simp
  next
    case (Inr res)
    show ?thesis
    proof (cases res)
      case None
      with Cons.prems n Inr have "commit_each drv tps did s1 = (s', r)" by simp
      from Cons.IH [OF this] le1 show ?thesis by (rule offsets_le_trans [rotated])
    next
      case (Some offset)
      show ?thesis
      proof (cases "should_commit tp offset s1")
        case False
        with Cons.prems n Inr Some have "commit_each drv tps did s1 = (s', r)" by simp
        from Cons.IH [OF this] le1 show ?thesis by (rule offsets_le_trans [rotated])
      next
        case True
        let ?s2 = "s1\<lparr>current_offset := (current_offset s1)(tp \<mapsto> offset)\<rparr>"
        let ?s3 = "?s2\<lparr>calls := calls ?s2 @ [DriverCommit tp offset (get_topic_meta drv (topic tp))]\<rparr>"
        have le2: "offsets_le s1 ?s2" using True by (rule offsets_le_update)
        have le3: "offsets_le ?s2 ?s3" by (rule offsets_le_eq) simp
        have le: "offsets_le s ?s3"
          using le1 le2 le3 offsets_le_trans by blast
        show ?thesis
        proof (cases "commit drv tp offset (get_topic_meta drv (topic tp))")
          case None
          with Cons.prems n Inr Some True have "commit_each drv tps True ?s3 = (s', r)"
            by (simp add: do_commit_def Let_def)
          from Cons.IH [OF this] le show ?thesis by (rule offsets_le_trans [rotated])
        next
          case (Some e)
          with Cons.prems n Inr \<open>res = Some offset\<close> True have "s' = ?s3"
            by (simp add: do_commit_def Let_def)
          with le show ?thesis by simp
        qed
      qed
    qed
  qed
qed

lemma step_offsets_le: "offsets_le s (step x s)"
proof (cases x)
  case (Ack tp offset)
  then show ?thesis by (simp add: offsets_le_def ack_def)
next
  case (MaybeCommit drv)
  then show ?thesis
    using commit_each_offsets_le [of drv "map fst (acked s)" False s]
    by (cases "maybe_commit drv s") (simp add: maybe_commit_def)
qed

lemma run_offsets_le: "offsets_le s (run ops s)"
proof (induction ops arbitrary: s)
  case Nil
  then show ?case by (simp add: run_def offsets_le_refl)
next
  case (Cons x ops)
  have "offsets_le (step x s) (run ops (step x s))" by (rule Cons.IH)
  with step_offsets_le [of s x] have "offsets_le s (run ops (step x s))"
    by (rule offsets_le_trans)
  then show ?case by (simp add: run_def)
qed

lemma run_append: "run (ops1 @ ops2) s = run ops2 (run ops1 s)"
  by (simp add: run_def)

text \<open>
  C9. In a session of acks and commit attempts (whatever the driver answers), once the
  current offset of a topic-partition is set, it is set at every later moment of the
  session and is never smaller.
\<close>

theorem current_offset_never_decreases:
  assumes "current_offset (run ops1 s) tp = Some c"
  shows "\<exists>c'. current_offset (run (ops1 @ ops2) s) tp = Some c' \<and> c \<le> c'"
  using run_offsets_le [of "run ops1 s" ops2] assms
  by (simp add: run_append offsets_le_def)

theorem current_offset_never_decreases_witness:
  "current_offset (run [Ack (TopicPartition ''t'' 0) 1, Ack (TopicPartition ''t'' 0) 2,
        MaybeCommit accepting] (init 0 True)) (TopicPartition ''t'' 0) = Some 2 \<and>
   (\<exists>c'. current_offset (run ([Ack (TopicPartition ''t'' 0) 1, Ack (TopicPartition ''t'' 0) 2,
        MaybeCommit accepting] @ [Ack (TopicPartition ''t'' 0) 1, MaybeCommit accepting,
        Ack (TopicPartition ''t'' 0) 3, MaybeCommit failing]) (init 0 True))
        (TopicPartition ''t'' 0) = Some c' \<and> 2 \<le> c')"
proof -
  let ?tp = "TopicPartition ''t'' 0"
  have 1: "current_offset (run [Ack ?tp 1, Ack ?tp 2, MaybeCommit accepting] (init 0 True)) ?tp
      = Some 2"
    by (simp add: eval_defs)
  from current_offset_never_decreases [OF 1] 1 show ?thesis by blast
qed

section \<open>A commit that fails\<close>

lemma commit_each_failure:
  assumes "commit_each drv tps did s = (s', Inl e)" and "distinct tps"
  shows "\<exists>tp offset pre. tp \<in> set tps \<and>
           calls s' = pre @ [DriverCommit tp offset (get_topic_meta drv (topic tp))] \<and>
           commit drv tp offset (get_topic_meta drv (topic tp)) = Some e \<and>
           current_offset s' tp = Some offset \<and> current_offset s tp \<noteq> Some offset"
  using assms
proof (induction tps arbitrary: s did)
  case Nil
  then show ?case by simp
next
  case (Cons tp0 tps)
  from Cons.prems(2) have d: "distinct tps" and nin0: "tp0 \<notin> set tps" by auto
  obtain s1 res where n: "new_offset tp0 s = (s1, Inr res)" using new_offset_total by blast
  note fr = new_offset_frame [OF n]
  have later: "\<exists>tp offset pre. tp \<in> set (tp0 # tps) \<and>
           calls s' = pre @ [DriverCommit tp offset (get_topic_meta drv (topic tp))] \<and>
           commit drv tp offset (get_topic_meta drv (topic tp)) = Some e \<and>
           current_offset s' tp = Some offset \<and> current_offset s tp \<noteq> Some offset"
    if rest: "commit_each drv tps didN sN = (s', Inl e)"
      and same: "\<And>tp. tp \<noteq> tp0 \<Longrightarrow> current_offset sN tp = current_offset s tp"
    for sN didN
  proof -
    from Cons.IH [OF rest d] obtain tp offset pre where
      t: "tp \<in> set tps" "calls s' = pre @ [DriverCommit tp offset (get_topic_meta drv (topic tp))]"
         "commit drv tp offset (get_topic_meta drv (topic tp)) = Some e"
         "current_offset s' tp = Some offset" "current_offset sN tp \<noteq> Some offset"
      by blast
    from t(1) nin0 have "tp \<noteq> tp0" by auto
    with same t(5) have "current_offset s tp \<noteq> Some offset" by simp
    with t(1-4) show ?thesis by auto
  qed
  show ?case
  proof (cases res)
    case None
    with Cons.prems(1) n have "commit_each drv tps did s1 = (s', Inl e)" by simp
    then show ?thesis using fr(1) by (intro later [of did s1]) simp_all
  next
    case (Some offset)
    show ?thesis
    proof (cases "should_commit tp0 offset s1")
      case False
      with Cons.prems(1) n Some have "commit_each drv tps did s1 = (s', Inl e)" by simp
      then show ?thesis using fr(1) by (intro later [of did s1]) simp_all
    next
      case True
      let ?s3 = "s1\<lparr>current_offset := (current_offset s1)(tp0 \<mapsto> offset),
                    calls := calls s1 @ [DriverCommit tp0 offset (get_topic_meta drv (topic tp0))]\<rparr>"
      show ?thesis
      proof (cases "commit drv tp0 offset (get_topic_meta drv (topic tp0))")
        case None
        with Cons.prems(1) n Some True have "commit_each drv tps True ?s3 = (s', Inl e)"
          by (simp add: do_commit_def Let_def)
        then show ?thesis using fr(1) by (intro later [of True ?s3]) simp_all
      next
        case (Some e')
        with Cons.prems(1) n \<open>res = Some offset\<close> True have s': "s' = ?s3" and e: "e' = e"
          by (simp_all add: do_commit_def Let_def)
        from True fr(1) have "current_offset s tp0 \<noteq> Some offset"
          by (auto simp: should_commit_def split: option.splits)
        with s' e Some show ?thesis
          by (intro exI [of _ tp0] exI [of _ offset] exI [of _ "calls s1"]) simp
      qed
    qed
  qed
qed

text \<open>
  C4, as stated, fails. With current offset 0 and offsets 1 and 2 acked, a driver commit
  that raises leaves the current offset at 2, and the commit loop ends with the
  exception after this one call of \<open>maybe_commit\<close>: the second tick, whose commit would
  succeed, never happens.
\<close>

theorem commit_failure_counterexample:
  "current_offset (run [Ack (TopicPartition ''t'' 0) 0, MaybeCommit accepting,
        Ack (TopicPartition ''t'' 0) 1, Ack (TopicPartition ''t'' 0) 2] (init 0 True))
      (TopicPartition ''t'' 0) = Some 0 \<and>
   snd (maybe_commit failing (run [Ack (TopicPartition ''t'' 0) 0, MaybeCommit accepting,
        Ack (TopicPartition ''t'' 0) 1, Ack (TopicPartition ''t'' 0) 2] (init 0 True))) =
     Inl (DriverError ''commit failed'') \<and>
   current_offset (fst (maybe_commit failing (run [Ack (TopicPartition ''t'' 0) 0,
        MaybeCommit accepting, Ack (TopicPartition ''t'' 0) 1, Ack (TopicPartition ''t'' 0) 2]
        (init 0 True)))) (TopicPartition ''t'' 0) = Some 2 \<and>
   commit_handler [([], failing), ([], accepting)]
      (run [Ack (TopicPartition ''t'' 0) 0, MaybeCommit accepting,
        Ack (TopicPartition ''t'' 0) 1, Ack (TopicPartition ''t'' 0) 2] (init 0 True)) =
     (fst (maybe_commit failing (run [Ack (TopicPartition ''t'' 0) 0, MaybeCommit accepting,
        Ack (TopicPartition ''t'' 0) 1, Ack (TopicPartition ''t'' 0) 2] (init 0 True))),
      Some (DriverError ''commit failed''), 1)"
proof -
  let ?tp = "TopicPartition ''t'' 0"
  let ?s = "run [Ack ?tp 0, MaybeCommit accepting, Ack ?tp 1, Ack ?tp 2] (init 0 True)"
  have s: "?s = \<lparr>consumer_id = 0, autoack = True, autoack_flags = Map.empty, dirty_messages = [],
      acked = [(?tp, [1, 2])], current_offset = [?tp \<mapsto> 0],
      recently_acked = [], calls = [DriverCommit ?tp 0 ()]\<rparr>"
    by (simp add: eval_defs)
  have m: "maybe_commit failing ?s =
      (\<lparr>consumer_id = 0, autoack = True, autoack_flags = Map.empty, dirty_messages = [],
        acked = [(?tp, [])], current_offset = [?tp \<mapsto> 2],
        recently_acked = [],
        calls = [DriverCommit ?tp 0 (), DriverCommit ?tp 2 ()]\<rparr>,
       Inl (DriverError ''commit failed''))"
    unfolding s by (simp add: eval_defs)
  have h: "commit_handler [([], failing), ([], accepting)] ?s =
      (fst (maybe_commit failing ?s), Some (DriverError ''commit failed''), 1)"
    unfolding m by (simp add: m)
  have c: "current_offset ?s ?tp = Some 0" unfolding s by simp
  from c m h show ?thesis by simp
qed

text \<open>
  Every call that the loop makes is appended to the record of calls; in a pass that
  returns no call was answered with an exception, and a pass that raises ends with the
  one call that was.
\<close>

lemma commit_each_calls:
  "commit_each drv tps did s = (s', r) \<Longrightarrow>
   \<exists>new. calls s' = calls s @ new \<and>
     (case r of
        Inr _ \<Rightarrow> list_all (\<lambda>c. \<not> call_fails drv c) new
      | Inl e \<Rightarrow>
          (\<exists>pre tp offset. new = pre @ [DriverCommit tp offset (get_topic_meta drv (topic tp))] \<and>
             list_all (\<lambda>c. \<not> call_fails drv c) pre \<and>
             commit drv tp offset (get_topic_meta drv (topic tp)) = Some e))"
proof (induction tps arbitrary: s did)
  case Nil
  then show ?case by auto
next
  case (Cons tp0 tps)
  obtain s1 res where n: "new_offset tp0 s = (s1, Inr res)" using new_offset_total by blast
  note fr = new_offset_frame [OF n]
  show ?case
  proof (cases res)
    case None
    with Cons.prems n have "commit_each drv tps did s1 = (s', r)" by simp
    from Cons.IH [OF this] fr(2) show ?thesis by simp
  next
    case (Some offset)
    show ?thesis
    proof (cases "should_commit tp0 offset s1")
      case False
      with Cons.prems n Some have "commit_each drv tps did s1 = (s', r)" by simp
      from Cons.IH [OF this] fr(2) show ?thesis by simp
    next
      case True
      let ?c = "DriverCommit tp0 offset (get_topic_meta drv (topic tp0))"
      let ?s3 = "s1\<lparr>current_offset := (current_offset s1)(tp0 \<mapsto> offset),
                    calls := calls s1 @ [?c]\<rparr>"
      show ?thesis
      proof (cases "commit drv tp0 offset (get_topic_meta drv (topic tp0))")
        case None
        with Cons.prems n Some True have "commit_each drv tps True ?s3 = (s', r)"
          by (simp add: do_commit_def Let_def)
        from Cons.IH [OF this] obtain new where
          new: "calls s' = calls ?s3 @ new"
          "case r of
             Inr _ \<Rightarrow> list_all (\<lambda>c. \<not> call_fails drv c) new
           | Inl e \<Rightarrow>
             (\<exists>pre tp offset. new = pre @ [DriverCommit tp offset (get_topic_meta drv (topic tp))] \<and>
               list_all (\<lambda>c. \<not> call_fails drv c) pre \<and>
               commit drv tp offset (get_topic_meta drv (topic tp)) = Some e)"
          by blast
        have ok: "\<not> call_fails drv ?c" using None by simp
        have c: "calls s' = calls s @ (?c # new)" using new(1) fr(2) by simp
        have "case r of
             Inr _ \<Rightarrow> list_all (\<lambda>c. \<not> call_fails drv c) (?c # new)
           | Inl e \<Rightarrow>
             (\<exists>pre tp offset. ?c # new = pre @ [DriverCommit tp offset (get_topic_meta drv (topic tp))] \<and>
               list_all (\<lambda>c. \<not> call_fails drv c) pre \<and>
               commit drv tp offset (get_topic_meta drv (topic tp)) = Some e)"
        proof (cases r)
          case (Inr b)
          with new(2) ok show ?thesis by simp
        next
          case (Inl e)
          with new(2) obtain pre tp offset' where
            p: "new = pre @ [DriverCommit tp offset' (get_topic_meta drv (topic tp))]"
               "list_all (\<lambda>c. \<not> call_fails drv c) pre"
               "commit drv tp offset' (get_topic_meta drv (topic tp)) = Some e"
            by auto
          have "?c # new = (?c # pre) @ [DriverCommit tp offset' (get_topic_meta drv (topic tp))]"
            using p(1) by simp
          moreover have "list_all (\<lambda>c. \<not> call_fails drv c) (?c # pre)" using p(2) ok by simp
          ultimately show ?thesis using Inl p(3) by auto
        qed
        with c show ?thesis by blast
      next
        case (Some e')
        with Cons.prems n \<open>res = Some offset\<close> True have s': "s' = ?s3" and r: "r = Inl e'"
          by (simp_all add: do_commit_def Let_def)
        have "calls s' = calls s @ [?c]" using s' fr(2) by simp
        moreover have "[?c] = [] @ [?c]" by simp
        ultimately show ?thesis using r Some
          by (intro exI [of _ "[?c]"]) auto
      qed
    qed
  qed
qed

text \<open>
  A raising commit makes \<open>maybe_commit\<close> raise: when the first key of the dictionary has
  acked offsets, \<open>_should_commit\<close> admits the offset computed for it and the driver
  answers the commit of that offset with an exception, \<open>maybe_commit\<close> ends with this
  exception and the current offset is the offset all the same.
\<close>

lemma first_commit_raises:
  assumes "acked s = (tp, xs) # rest" and "xs \<noteq> []"
    and "should_commit tp (last (hd (consecutive_numbers xs))) s"
    and "commit drv tp (last (hd (consecutive_numbers xs))) (get_topic_meta drv (topic tp)) = Some e"
  shows "snd (maybe_commit drv s) = Inl e \<and>
         current_offset (fst (maybe_commit drv s)) tp = Some (last (hd (consecutive_numbers xs)))"
proof -
  have a: "acked_for tp s = xs" using assms(1) by (simp add: acked_for_def)
  from first_run [OF assms(2)] obtain k rs where
    k: "consecutive_numbers xs = take k xs # rs" "0 < k" by blast
  have ne: "take k xs \<noteq> []" using k(2) assms(2) by (cases xs) auto
  let ?s2 = "s\<lparr>acked := AList.update tp (drop (length (take k xs)) xs) (acked s)\<rparr>"
  have n: "new_offset tp s = (?s2, Inr (Some (last (take k xs))))"
    using a assms(2) k(1) ne by (simp add: new_offset_def Let_def)
  have sc: "should_commit tp (last (take k xs)) ?s2"
    using assms(3) k(1) by (simp add: should_commit_def)
  have c: "commit drv tp (last (take k xs)) (get_topic_meta drv (topic tp)) = Some e"
    using assms(4) k(1) by simp
  show ?thesis
    using assms(1) n sc c k(1) by (simp add: maybe_commit_def do_commit_def Let_def)
qed

text \<open>
  C4, amended. Let the driver raise on a commit that \<open>maybe_commit\<close> performs in a tick
  of the commit loop (a call it makes to the driver in that tick, for an offset of a
  topic-partition). Then \<open>maybe_commit\<close> ends with that exception and this call is the
  last one made; the current offset of the topic-partition is already the offset of the
  call, which it was not before; and the commit loop ends with the exception after this
  one call of \<open>maybe_commit\<close>, whatever ticks would follow.
\<close>

theorem commit_failure_advances_and_stops:
  assumes "distinct (map fst (acked (fold (\<lambda>(tp, offset). ack tp offset) arrived s)))"
    and "DriverCommit tp offset meta \<in>
           set (drop (length (calls (fold (\<lambda>(tp, offset). ack tp offset) arrived s)))
                  (calls (fst (maybe_commit drv (fold (\<lambda>(tp, offset). ack tp offset) arrived s)))))"
    and "commit drv tp offset meta = Some e"
  shows "snd (maybe_commit drv (fold (\<lambda>(tp, offset). ack tp offset) arrived s)) = Inl e \<and>
         current_offset (fst (maybe_commit drv (fold (\<lambda>(tp, offset). ack tp offset) arrived s))) tp =
           Some offset \<and>
         current_offset (fold (\<lambda>(tp, offset). ack tp offset) arrived s) tp \<noteq> Some offset \<and>
         last (calls (fst (maybe_commit drv (fold (\<lambda>(tp, offset). ack tp offset) arrived s)))) =
           DriverCommit tp offset meta \<and>
         commit_handler ((arrived, drv) # ticks) s =
           (fst (maybe_commit drv (fold (\<lambda>(tp, offset). ack tp offset) arrived s)), Some e, 1)"
proof -
  let ?sa = "fold (\<lambda>(tp, offset). ack tp offset) arrived s"
  obtain s' r where m: "maybe_commit drv ?sa = (s', r)" by (cases "maybe_commit drv ?sa")
  then have ce: "commit_each drv (map fst (acked ?sa)) False ?sa = (s', r)"
    by (simp add: maybe_commit_def)
  from commit_each_calls [OF ce] obtain new where
    new: "calls s' = calls ?sa @ new"
      "case r of
         Inr _ \<Rightarrow> list_all (\<lambda>c. \<not> call_fails drv c) new
       | Inl e \<Rightarrow>
         (\<exists>pre tp offset. new = pre @ [DriverCommit tp offset (get_topic_meta drv (topic tp))] \<and>
           list_all (\<lambda>c. \<not> call_fails drv c) pre \<and>
           commit drv tp offset (get_topic_meta drv (topic tp)) = Some e)"
    by blast
  have mem: "DriverCommit tp offset meta \<in> set new" using assms(2) m new(1) by simp
  have fails: "call_fails drv (DriverCommit tp offset meta)" using assms(3) by simp
  show ?thesis
  proof (cases r)
    case (Inr b)
    with new(2) have "list_all (\<lambda>c. \<not> call_fails drv c) new" by simp
    with mem fails have False by (auto simp: list_all_iff)
    then show ?thesis ..
  next
    case (Inl e')
    with new(2) obtain pre tp' offset' where
      p: "new = pre @ [DriverCommit tp' offset' (get_topic_meta drv (topic tp'))]"
         "list_all (\<lambda>c. \<not> call_fails drv c) pre"
         "commit drv tp' offset' (get_topic_meta drv (topic tp')) = Some e'"
      by auto
    from mem fails p(1,2) have
      eq: "DriverCommit tp offset meta = DriverCommit tp' offset' (get_topic_meta drv (topic tp'))"
      by (auto simp: list_all_iff)
    with p(3) assms(3) have e: "e' = e" by simp
    from ce Inl have "commit_each drv (map fst (acked ?sa)) False ?sa = (s', Inl e')" by simp
    from commit_each_failure [OF this assms(1)] obtain tp2 offset2 pre2 where
      f: "calls s' = pre2 @ [DriverCommit tp2 offset2 (get_topic_meta drv (topic tp2))]"
         "current_offset s' tp2 = Some offset2" "current_offset ?sa tp2 \<noteq> Some offset2"
      by blast
    from f(1) new(1) p(1) eq have same: "tp2 = tp" "offset2 = offset"
      and lst: "last (calls s') = DriverCommit tp offset meta"
      by simp_all
    have h: "commit_handler ((arrived, drv) # ticks) s = (s', Some e, 1)"
      using m Inl e by simp
    from m Inl e f(2,3) same lst h show ?thesis by simp
  qed
qed

text \<open>
  Offsets 1 and 2 arrive during the first sleep and the driver raises: the current
  offset is 2, and the second tick, with a driver that would accept, does not happen.
\<close>

theorem commit_failure_advances_and_stops_witness:
  "snd (maybe_commit failing
        (run [Ack (TopicPartition ''t'' 0) 1, Ack (TopicPartition ''t'' 0) 2] (init 0 True))) =
     Inl (DriverError ''commit failed'') \<and>
   current_offset (fst (maybe_commit failing
        (run [Ack (TopicPartition ''t'' 0) 1, Ack (TopicPartition ''t'' 0) 2] (init 0 True))))
     (TopicPartition ''t'' 0) = Some 2 \<and>
   commit_handler [([(TopicPartition ''t'' 0, 1), (TopicPartition ''t'' 0, 2)], failing),
                   ([], accepting)] (init 0 True) =
     (fst (maybe_commit failing
        (run [Ack (TopicPartition ''t'' 0) 1, Ack (TopicPartition ''t'' 0) 2] (init 0 True))),
      Some (DriverError ''commit failed''), 1)"
proof -
  let ?tp = "TopicPartition ''t'' 0"
  let ?arr = "[(?tp, 1), (?tp, 2 :: int)]"
  let ?ini = "init 0 True :: unit Consumer"
  let ?sa = "fold (\<lambda>(tp, offset). ack tp offset) ?arr ?ini"
  have eq: "run [Ack ?tp 1, Ack ?tp 2] ?ini = ?sa" by (simp add: run_def)
  have s: "?sa = \<lparr>consumer_id = 0, autoack = True, autoack_flags = Map.empty, dirty_messages = [],
      acked = [(?tp, [1, 2])], current_offset = Map.empty,
      recently_acked = [], calls = []\<rparr>"
    by (simp add: eval_defs)
  have d: "distinct (map fst (acked ?sa))" unfolding s by simp
  have c: "DriverCommit ?tp 2 () \<in>
      set (drop (length (calls ?sa)) (calls (fst (maybe_commit failing ?sa))))"
    unfolding s by (simp add: eval_defs)
  have f: "commit failing ?tp 2 () = Some (DriverError ''commit failed'')"
    by (simp add: failing_def)
  from commit_failure_advances_and_stops [OF d c f, of "[([], accepting)]"]
  show ?thesis unfolding eq by simp
qed

section \<open>Releasing a message\<close>

text \<open>
  C8. The flag that \<open>on_message_ready\<close> reads is the entry of \<open>_autoack\<close> under the
  topic-partition, not under the topic: with the default flag true and the flag of topic
  \<open>a\<close> set to false, a released message of topic \<open>a\<close> is acked all the same.
\<close>

theorem on_message_ready_ignores_topic_flag:
  "acked (on_message_ready
      \<lparr>ref_message = \<lparr>message_topic = ''a'', message_partition = 0,
                       message_key = None, message_value = None\<rparr>,
       ref_tp = TopicPartition ''a'' 0, ref_offset = 5, ref_consumer_id = 0\<rparr>
      ((init 0 True :: unit Consumer)\<lparr>autoack_flags := [ByTopic ''a'' \<mapsto> False]\<rparr>)) =
   [(TopicPartition ''a'' 0, [5])]"
  by (simp add: on_message_ready_def ack_def acked_for_def init_def Let_def)

section \<open>Tracking a message\<close>

text \<open>
  C10, as stated, fails: the only call \<open>track_message\<close> makes is the sensor hook; the
  user callback is not called.
\<close>

theorem track_message_no_callback_counterexample:
  "calls (track_message accepting
      \<lparr>message_topic = ''t'', message_partition = 1, message_key = None,
        message_value = Some ''v''\<rparr> 7 (init 3 True)) =
     [SensorMessageIn 3 (TopicPartition ''t'' 1) 7
        \<lparr>message_topic = ''t'', message_partition = 1, message_key = None,
          message_value = Some ''v''\<rparr>] \<and>
   Callback \<lparr>message_topic = ''t'', message_partition = 1, message_key = None,
              message_value = Some ''v''\<rparr>
     \<notin> set (calls (track_message accepting
      \<lparr>message_topic = ''t'', message_partition = 1, message_key = None,
        message_value = Some ''v''\<rparr> 7 (init 3 True)))"
  by (simp add: track_message_def on_message_in_def init_def accepting_def)

text \<open>
  C10, amended. \<open>track_message(message, offset)\<close> appends to the dirty messages a
  \<open>MessageRef\<close> with the topic-partition of the message, the offset and the consumer id,
  then emits the \<open>message_in\<close> sensor event with the consumer id, the topic-partition
  from the driver's factory, the offset and the message; it changes nothing else and
  makes no other call (the user callback is left to the caller).
\<close>

theorem track_message_effect:
  "track_message drv message offset s =
     s\<lparr>dirty_messages := dirty_messages s @
          [\<lparr>ref_message = message,
            ref_tp = TopicPartition (message_topic message) (message_partition message),
            ref_offset = offset, ref_consumer_id = consumer_id s\<rparr>],
       calls := calls s @
          [SensorMessageIn (consumer_id s)
             (new_topicpartition drv (message_topic message) (message_partition message))
             offset message]\<rparr>"
  by (simp add: track_message_def on_message_in_def Let_def)

theorem track_message_effect_witness:
  "dirty_messages (track_message accepting
      \<lparr>message_topic = ''t'', message_partition = 1, message_key = None,
        message_value = Some ''v''\<rparr> 7 (init 3 True)) =
     [\<lparr>ref_message = \<lparr>message_topic = ''t'', message_partition = 1, message_key = None,
                       message_value = Some ''v''\<rparr>,
       ref_tp = TopicPartition ''t'' 1, ref_offset = 7, ref_consumer_id = 3\<rparr>]"
  using track_message_effect [of accepting
      "\<lparr>message_topic = ''t'', message_partition = 1, message_key = None,
        message_value = Some ''v''\<rparr>" 7 "init 3 True"]
  by (simp add: init_def)

section \<open>Table mutations and the changelog\<close>

text \<open>
  C5. On a bound table (its changelog topic is set), \<open>set(k, v)\<close> returns with the
  underlying map holding \<open>v\<close> under \<open>k\<close> and the record \<open>(k, v)\<close> appended to the queue of
  sends for the changelog topic; \<open>del(k)\<close> returns with no entry under \<open>k\<close> and the
  tombstone \<open>(k, null)\<close> appended to that queue.
\<close>

theorem table_mutation_enqueues:
  assumes "changelog_topic t = Some ct"
  shows "setitem key val (t, app) =
           ((t\<lparr>data := (data t)(key \<mapsto> val)\<rparr>,
             app\<lparr>pending := pending app @ [(ct, key, Some val)]\<rparr>), None) \<and>
         delitem key (t, app) =
           ((t\<lparr>data := (data t)(key := None)\<rparr>,
             app\<lparr>pending := pending app @ [(ct, key, None)]\<rparr>), None)"
  using assms by (simp add: setitem_def delitem_def on_key_set_def on_key_del_def send_soon_def)

text \<open>
  Scenario S5 of the spec: \<open>table["x"] = 1; table["y"] = 2; del table["x"]\<close>.
\<close>

theorem table_mutation_enqueues_witness:
  "pending (snd (fst (delitem ''x'' (fst (setitem ''y'' 2 (fst (setitem ''x'' (1 :: int)
      (\<lparr>table_name = ''counts'', store = None, state_store = True, data = Map.empty,
         changelog_topic = Some (Topic ''app-counts-changelog'')\<rparr>,
       \<lparr>app_id = ''app'', app_store = ''memory://'', pending = [], tables = []\<rparr>)))))))) =
     [(Topic ''app-counts-changelog'', ''x'', Some 1),
      (Topic ''app-counts-changelog'', ''y'', Some 2),
      (Topic ''app-counts-changelog'', ''x'', None)] \<and>
   data (fst (fst (delitem ''x'' (fst (setitem ''y'' 2 (fst (setitem ''x'' (1 :: int)
      (\<lparr>table_name = ''counts'', store = None, state_store = True, data = Map.empty,
         changelog_topic = Some (Topic ''app-counts-changelog'')\<rparr>,
       \<lparr>app_id = ''app'', app_store = ''memory://'', pending = [], tables = []\<rparr>)))))))) =
     [''y'' \<mapsto> 2]"
proof -
  let ?ct = "Topic ''app-counts-changelog''"
  let ?t = "\<lparr>table_name = ''counts'', store = None, state_store = True,
             data = (Map.empty :: string \<rightharpoonup> int), changelog_topic = Some ?ct\<rparr>"
  let ?app = "\<lparr>app_id = ''app'', app_store = ''memory://'',
               pending = ([] :: (Topic \<times> string \<times> int option) list), tables = []\<rparr>"
  have b: "changelog_topic ?t = Some ?ct" by simp
  let ?t1 = "?t\<lparr>data := (data ?t)(''x'' \<mapsto> 1)\<rparr>"
  let ?a1 = "?app\<lparr>pending := pending ?app @ [(?ct, ''x'', Some 1)]\<rparr>"
  have 1: "setitem ''x'' 1 (?t, ?app) = ((?t1, ?a1), None)"
    using table_mutation_enqueues [OF b, of "''x''" 1 ?app] by simp
  have b1: "changelog_topic ?t1 = Some ?ct" by simp
  let ?t2 = "?t1\<lparr>data := (data ?t1)(''y'' \<mapsto> 2)\<rparr>"
  let ?a2 = "?a1\<lparr>pending := pending ?a1 @ [(?ct, ''y'', Some 2)]\<rparr>"
  have 2: "setitem ''y'' 2 (?t1, ?a1) = ((?t2, ?a2), None)"
    using table_mutation_enqueues [OF b1, of "''y''" 2 ?a1] by simp
  have b2: "changelog_topic ?t2 = Some ?ct" by simp
  let ?t3 = "?t2\<lparr>data := (data ?t2)(''x'' := None)\<rparr>"
  let ?a3 = "?a2\<lparr>pending := pending ?a2 @ [(?ct, ''x'', None)]\<rparr>"
  have 3: "delitem ''x'' (?t2, ?a2) = ((?t3, ?a3), None)"
    using table_mutation_enqueues [OF b2, of "''x''" 2 ?a2] by simp
  have d: "data ?t3 = [''y'' \<mapsto> 2]" by (rule ext) simp
  show ?thesis unfolding 1 fst_conv 2 3 snd_conv using d by simp
qed

section \<open>The name of the changelog topic\<close>

lemma format_changelog:
  "format_scan (table_field app t) None (changelog_topic_name t) =
     Inr (app_id app @ ''-'' @ table_name t @ ''-changelog'')"
  by (simp add: changelog_topic_name_def table_field_def)

text \<open>
  C6. \<open>on_bind\<close> succeeds and sets the changelog topic of the table to the topic named
  by the application id, a hyphen, the table name and \<open>-changelog\<close>; and the records
  that \<open>set\<close> and \<open>del\<close> then enqueue are addressed to that topic.
\<close>

theorem changelog_topic_derived:
  "snd (on_bind open_store (t, app)) = None \<and>
   changelog_topic (fst (fst (on_bind open_store (t, app)))) =
     Some (Topic (app_id app @ ''-'' @ table_name t @ ''-changelog'')) \<and>
   pending (snd (fst (setitem key val (fst (on_bind open_store (t, app)))))) =
     pending app @ [(Topic (app_id app @ ''-'' @ table_name t @ ''-changelog''), key, Some val)] \<and>
   pending (snd (fst (delitem key (fst (on_bind open_store (t, app)))))) =
     pending app @ [(Topic (app_id app @ ''-'' @ table_name t @ ''-changelog''), key, None)]"
  by (simp add: on_bind_def derive_topic_def format_changelog Let_def
      setitem_def delitem_def on_key_set_def on_key_del_def send_soon_def)

theorem changelog_topic_derived_witness:
  "changelog_topic (fst (fst (on_bind (\<lambda>_. Map.empty)
      (\<lparr>table_name = ''counts'', store = None, state_store = True,
         data = (Map.empty :: string \<rightharpoonup> int), changelog_topic = None\<rparr>,
       \<lparr>app_id = ''app'', app_store = ''memory://'', pending = [], tables = []\<rparr>)))) =
     Some (Topic ''app-counts-changelog'')"
  using changelog_topic_derived [of "\<lambda>_. Map.empty"
      "\<lparr>table_name = ''counts'', store = None, state_store = True,
         data = (Map.empty :: string \<rightharpoonup> int), changelog_topic = None\<rparr>"
      "\<lparr>app_id = ''app'', app_store = ''memory://'', pending = [], tables = []\<rparr>"]
  by simp

end
